theory Spec2Isabelle
  imports Main "HOL-Library.Sublist"
begin

section \<open>Email-to-user resolution (sentry/auth/email.py)\<close>

subsection \<open>Data model\<close>

text \<open>
  The Django models \<open>User\<close>, \<open>UserEmail\<close> and \<open>Organization\<close> are imported by the
  module; only the attributes that the resolver reads are kept. \<open>UserEmail.is_primary()\<close>
  is a method of the imported model, so its value is carried as a field of the row.
\<close>

datatype User = User (pk: nat)

record UserEmail =
  user_id :: nat
  user :: User
  is_verified :: bool
  is_primary :: bool

record Organization =
  org_id :: nat

text \<open>One element of what \<open>organization_service.get_member_summaries_by_ids\<close> returns.\<close>

record member_summary =
  summary_user_id :: nat

text \<open>
  Everything that \<open>resolve\<close> can raise: its own \<open>ValueError\<close>, the module's
  \<open>AmbiguousUserFromEmail(email, users)\<close>, and an exception of the organization
  service, which no \<open>try\<close> of the module catches.
\<close>

datatype error =
  ValueError
  | AmbiguousUserFromEmail string "User list"
  | ServiceException string

text \<open>
  The observable effects of one call: the counters passed to \<open>metrics.incr\<close>, in order,
  and the calls made to the organization service, as (organization id, user ids).
\<close>

record effects =
  metrics :: "string list"
  service_calls :: "(nat \<times> nat list) list"

text \<open>
  The organization service is external: it is a parameter, and \<open>Inl msg\<close> stands for
  the call raising.
\<close>

type_synonym member_service = "nat \<Rightarrow> nat list \<Rightarrow> string + member_summary list"

record EmailResolver =
  email :: string
  organization :: "Organization option"

datatype ResolutionStep = IsVerified | HasOrgMembership | IsPrimary

subsection \<open>Operations\<close>

definition metrics_incr :: "string \<Rightarrow> effects \<Rightarrow> effects" where
  "metrics_incr name s = s\<lparr>metrics := metrics s @ [name]\<rparr>"

definition get_member_summaries_by_ids ::
  "member_service \<Rightarrow> nat \<Rightarrow> nat list \<Rightarrow> effects \<Rightarrow> effects \<times> (string + member_summary list)" where
  "get_member_summaries_by_ids svc organization_id user_ids s =
     (s\<lparr>service_calls := service_calls s @ [(organization_id, user_ids)]\<rparr>,
      svc organization_id user_ids)"

text \<open>\<open>ResolutionStep.apply\<close>, one equation per subclass.\<close>

fun apply_step ::
  "EmailResolver \<Rightarrow> member_service \<Rightarrow> ResolutionStep \<Rightarrow> UserEmail list \<Rightarrow> effects
     \<Rightarrow> effects \<times> (error + UserEmail list)" where
  "apply_step parent svc IsVerified candidates s =
     (s, Inr (filter is_verified candidates))"
| "apply_step parent svc HasOrgMembership candidates s =
     (case organization parent of
        None \<Rightarrow> (s, Inr [])
      | Some org \<Rightarrow>
          (let candidate_ids = map user_id candidates in
           case get_member_summaries_by_ids svc (org_id org) candidate_ids s of
             (s1, Inl exn) \<Rightarrow> (s1, Inl (ServiceException exn))
           | (s1, Inr member_summaries) \<Rightarrow>
               (let users_in_org = set (map summary_user_id member_summaries) in
                (s1, Inr (filter (\<lambda>ue. user_id ue \<in> users_in_org) candidates)))))"
| "apply_step parent svc IsPrimary candidates s =
     (s, Inr (filter is_primary candidates))"

text \<open>\<open>ResolutionStep.if_conclusive\<close>: each subclass increments its own counter.\<close>

fun if_conclusive :: "ResolutionStep \<Rightarrow> UserEmail list \<Rightarrow> UserEmail \<Rightarrow> effects \<Rightarrow> effects" where
  "if_conclusive IsVerified candidates choice s =
     metrics_incr ''auth.email_resolution.by_verification'' s"
| "if_conclusive HasOrgMembership candidates choice s =
     metrics_incr ''auth.email_resolution.by_org_membership'' s"
| "if_conclusive IsPrimary candidates choice s =
     metrics_incr ''auth.email_resolution.by_primary_email'' s"

definition if_inconclusive :: "UserEmail list \<Rightarrow> effects \<Rightarrow> effects" where
  "if_inconclusive remaining_candidates s =
     metrics_incr ''auth.email_resolution.no_resolution'' s"

definition get_steps :: "ResolutionStep list" where
  "get_steps = [IsVerified, HasOrgMembership, IsPrimary]"

text \<open>
  One iteration of the \<open>for\<close> loop of \<open>resolve\<close>: it returns a user, raises, or goes on
  to the next step with a candidate tuple.
\<close>

datatype iteration = Return User | Raise error | Continue "UserEmail list"

definition loop_body ::
  "EmailResolver \<Rightarrow> member_service \<Rightarrow> ResolutionStep \<Rightarrow> UserEmail list \<Rightarrow> effects
     \<Rightarrow> effects \<times> iteration" where
  "loop_body self svc step candidates s =
     (let last_candidates = candidates in
      case apply_step self svc step candidates s of
        (s1, Inl exn) \<Rightarrow> (s1, Raise exn)
      | (s1, Inr candidates') \<Rightarrow>
          (case candidates' of
             [choice] \<Rightarrow> (if_conclusive step last_candidates choice s1, Return (user choice))
           | [] \<Rightarrow> (s1, Continue last_candidates)
           | _ \<Rightarrow> (s1, Continue candidates')))"

text \<open>
  The whole loop over a list of steps. \<open>Continue cs\<close> as the final value means that the
  loop ran to its end with \<open>cs\<close> as the current candidates.
\<close>

fun run_steps ::
  "EmailResolver \<Rightarrow> member_service \<Rightarrow> ResolutionStep list \<Rightarrow> UserEmail list \<Rightarrow> effects
     \<Rightarrow> effects \<times> iteration" where
  "run_steps self svc [] candidates s = (s, Continue candidates)"
| "run_steps self svc (step # steps) candidates s =
     (case loop_body self svc step candidates s of
        (s1, Continue candidates') \<Rightarrow> run_steps self svc steps candidates' s1
      | (s1, r) \<Rightarrow> (s1, r))"

text \<open>\<open>_EmailResolver.resolve\<close>.\<close>

definition resolve ::
  "EmailResolver \<Rightarrow> member_service \<Rightarrow> UserEmail list \<Rightarrow> effects \<Rightarrow> effects \<times> (error + User)" where
  "resolve self svc candidates s =
     (case candidates of
        [] \<Rightarrow> (s, Inl ValueError)
      | [unique_email] \<Rightarrow> (s, Inr (user unique_email))
      | _ \<Rightarrow>
          (case run_steps self svc get_steps candidates s of
             (s1, Return u) \<Rightarrow> (s1, Inr u)
           | (s1, Raise exn) \<Rightarrow> (s1, Inl exn)
           | (s1, Continue remaining) \<Rightarrow>
               (if_inconclusive remaining s1,
                Inl (AmbiguousUserFromEmail (email self) (map user remaining)))))"

text \<open>
  \<open>resolve_email_to_user\<close>. The query
  \<open>UserEmail.objects.filter(email__iexact=email, user__is_active=True)\<close> is the
  parameter \<open>objects_filter\<close>; \<open>Inr None\<close> is the return value \<open>None\<close>.
\<close>

definition resolve_email_to_user ::
  "(string \<Rightarrow> UserEmail list) \<Rightarrow> member_service \<Rightarrow> string \<Rightarrow> Organization option \<Rightarrow> effects
     \<Rightarrow> effects \<times> (error + User option)" where
  "resolve_email_to_user objects_filter svc email_arg organization_arg s =
     (let candidates = objects_filter email_arg in
      if candidates = [] then (s, Inr None)
      else (case resolve \<lparr>email = email_arg, organization = organization_arg\<rparr> svc candidates s of
              (s1, Inl exn) \<Rightarrow> (s1, Inl exn)
            | (s1, Inr u) \<Rightarrow> (s1, Inr (Some u))))"

text \<open>The counters incremented between two effect states.\<close>

definition emitted :: "effects \<Rightarrow> effects \<Rightarrow> string list" where
  "emitted s s' = drop (length (metrics s)) (metrics s')"

subsection \<open>Sample data\<close>

text \<open>Rows, an empty effect log and three organization services used in examples.\<close>

abbreviation row :: "nat \<Rightarrow> bool \<Rightarrow> bool \<Rightarrow> UserEmail" where
  "row n v p \<equiv> \<lparr>user_id = n, user = User n, is_verified = v, is_primary = p\<rparr>"

abbreviation no_effects :: effects where
  "no_effects \<equiv> \<lparr>metrics = [], service_calls = []\<rparr>"

abbreviation resolver :: "string \<Rightarrow> Organization option \<Rightarrow> EmailResolver" where
  "resolver e org \<equiv> \<lparr>email = e, organization = org\<rparr>"

definition no_members :: member_service where
  "no_members organization_id user_ids = Inr []"

definition member_two :: member_service where
  "member_two organization_id user_ids = Inr [\<lparr>summary_user_id = 2\<rparr>]"

definition service_down :: member_service where
  "service_down organization_id user_ids = Inl ''timeout''"

definition two_unverified :: "string \<Rightarrow> UserEmail list" where
  "two_unverified e = [row 1 False False, row 2 False False]"

definition nobody :: "string \<Rightarrow> UserEmail list" where
  "nobody e = []"

section \<open>Properties\<close>

lemma metrics_incr_simps [simp]:
  "metrics (metrics_incr n s) = metrics s @ [n]"
  "service_calls (metrics_incr n s) = service_calls s"
  by (simp_all add: metrics_incr_def)

subsection \<open>Steps and the loop\<close>


lemma apply_step_metrics:
  "apply_step self svc step cs s = (s', r) \<Longrightarrow> metrics s' = metrics s"
  by (cases step)
     (auto simp: get_member_summaries_by_ids_def Let_def split: option.splits sum.splits)

lemma apply_step_subseq:
  "apply_step self svc step cs s = (s', Inr cs') \<Longrightarrow> subseq cs' cs"
  by (cases step)
     (auto simp: get_member_summaries_by_ids_def Let_def split: option.splits sum.splits)

lemma loop_body_Continue:
  assumes "loop_body self svc step cs s = (s', Continue cs')"
  shows "metrics s' = metrics s" and "subseq cs' cs" and "cs' = cs \<or> 2 \<le> length cs'"
proof -
  obtain s1 r where a: "apply_step self svc step cs s = (s1, r)"
    by (cases "apply_step self svc step cs s")
  with assms obtain xs where r: "r = Inr xs"
    by (cases r) (auto simp: loop_body_def)
  from assms a r have s1: "s1 = s'"
    by (auto simp: loop_body_def split: list.splits)
  from a s1 show "metrics s' = metrics s"
    by (auto dest: apply_step_metrics)
  from assms a r have "cs' = cs \<and> xs = [] \<or> cs' = xs \<and> 2 \<le> length xs"
    by (auto simp: loop_body_def split: list.splits)
  moreover from a r have "subseq xs cs"
    by (auto dest: apply_step_subseq)
  ultimately show "subseq cs' cs" and "cs' = cs \<or> 2 \<le> length cs'"
    by auto
qed

lemma loop_body_Raise:
  assumes "loop_body self svc step cs s = (s', Raise e)"
  shows "metrics s' = metrics s" and "\<exists>msg. e = ServiceException msg"
proof -
  obtain s1 r where a: "apply_step self svc step cs s = (s1, r)"
    by (cases "apply_step self svc step cs s")
  with assms have r: "r = Inl e" and s1: "s1 = s'"
    by (cases r; auto simp: loop_body_def split: list.splits)+
  from a s1 show "metrics s' = metrics s"
    by (auto dest: apply_step_metrics)
  from a r show "\<exists>msg. e = ServiceException msg"
    by (cases step)
       (auto simp: get_member_summaries_by_ids_def Let_def split: option.splits sum.splits)
qed

lemma loop_body_Return:
  assumes "loop_body self svc step cs s = (s', Return u)"
  shows "u \<in> user ` set cs" and "metrics s' = metrics (if_conclusive step xs x s)"
proof -
  obtain s1 r where a: "apply_step self svc step cs s = (s1, r)"
    by (cases "apply_step self svc step cs s")
  with assms obtain c where r: "r = Inr [c]" and u: "u = user c"
    and s': "s' = if_conclusive step cs c s1"
    by (cases r) (auto simp: loop_body_def split: list.splits)
  from a r have "subseq [c] cs"
    by (auto dest: apply_step_subseq)
  then have "c \<in> set cs"
    by (simp add: subseq_singleton_left)
  with u show "u \<in> user ` set cs"
    by blast
  from a have "metrics s1 = metrics s"
    by (rule apply_step_metrics)
  with s' show "metrics s' = metrics (if_conclusive step xs x s)"
    by (cases step) simp_all
qed

lemma if_conclusive_metrics:
  "metrics s1 = metrics s \<Longrightarrow>
     metrics (if_conclusive step xs x s1) = metrics (if_conclusive step xs x s)"
  by (cases step) simp_all

lemma run_steps_Continue:
  "run_steps self svc steps cs s = (s', Continue cs') \<Longrightarrow>
     metrics s' = metrics s \<and> subseq cs' cs \<and> (cs' = cs \<or> 2 \<le> length cs')"
proof (induction steps arbitrary: cs s)
  case Nil
  then show ?case by simp
next
  case (Cons step steps)
  obtain s1 r where b: "loop_body self svc step cs s = (s1, r)"
    by (cases "loop_body self svc step cs s")
  with Cons.prems obtain cs1 where r: "r = Continue cs1"
    and rest: "run_steps self svc steps cs1 s1 = (s', Continue cs')"
    by (cases r) auto
  note h = loop_body_Continue [OF b [unfolded r]]
  from Cons.IH [OF rest] h show ?case
    by (auto intro: subseq_order.trans)
qed

lemma run_steps_Raise:
  "run_steps self svc steps cs s = (s', Raise e) \<Longrightarrow>
     metrics s' = metrics s \<and> (\<exists>msg. e = ServiceException msg)"
proof (induction steps arbitrary: cs s)
  case Nil
  then show ?case by simp
next
  case (Cons step steps)
  obtain s1 r where b: "loop_body self svc step cs s = (s1, r)"
    by (cases "loop_body self svc step cs s")
  show ?case
  proof (cases r)
    case (Return u)
    with Cons.prems b show ?thesis by simp
  next
    case (Raise e1)
    with Cons.prems b have "loop_body self svc step cs s = (s', Raise e)" by simp
    then show ?thesis
      using loop_body_Raise by blast
  next
    case (Continue cs1)
    with Cons.prems b have "run_steps self svc steps cs1 s1 = (s', Raise e)" by simp
    from Cons.IH [OF this] loop_body_Continue(1) [OF b [unfolded Continue]]
    show ?thesis by simp
  qed
qed

lemma run_steps_Return:
  "run_steps self svc steps cs s = (s', Return u) \<Longrightarrow>
     u \<in> user ` set cs \<and> (\<exists>step \<in> set steps. metrics s' = metrics (if_conclusive step xs x s))"
proof (induction steps arbitrary: cs s)
  case Nil
  then show ?case by simp
next
  case (Cons step steps)
  obtain s1 r where b: "loop_body self svc step cs s = (s1, r)"
    by (cases "loop_body self svc step cs s")
  show ?case
  proof (cases r)
    case (Return u1)
    with Cons.prems b have "loop_body self svc step cs s = (s', Return u)" by simp
    from loop_body_Return [OF this] show ?thesis
      by auto
  next
    case (Raise e1)
    with Cons.prems b show ?thesis by simp
  next
    case (Continue cs1)
    with Cons.prems b have "run_steps self svc steps cs1 s1 = (s', Return u)" by simp
    note ih = Cons.IH [OF this]
    note h = loop_body_Continue [OF b [unfolded Continue]]
    from ih h(2) have member: "u \<in> user ` set cs"
      by (auto dest: list_emb_set)
    from ih obtain st where "st \<in> set steps"
      and "metrics s' = metrics (if_conclusive st xs x s1)"
      by blast
    with if_conclusive_metrics [OF h(1), of st xs x]
    have "\<exists>step \<in> set steps. metrics s' = metrics (if_conclusive step xs x s)"
      by auto
    with member show ?thesis by auto
  qed
qed

subsection \<open>The result of \<open>resolve\<close>\<close>

lemma resolve_two_or_more:
  assumes "2 \<le> length candidates"
  shows "resolve self svc candidates s =
     (case run_steps self svc get_steps candidates s of
        (s1, Return u) \<Rightarrow> (s1, Inr u)
      | (s1, Raise exn) \<Rightarrow> (s1, Inl exn)
      | (s1, Continue remaining) \<Rightarrow>
          (if_inconclusive remaining s1,
           Inl (AmbiguousUserFromEmail (email self) (map user remaining))))"
proof -
  from assms obtain a b rest where "candidates = a # b # rest"
    by (cases candidates; cases "tl candidates") auto
  then show ?thesis
    by (simp add: resolve_def)
qed

text \<open>
  C5. A candidate collection of size exactly one is resolved to the user of its only row
  at once: the effects are returned as they were, so no step has called the organization
  service and no counter was incremented.
\<close>

theorem single_candidate_returned:
  assumes "length candidates = 1"
  shows "\<exists>unique_email. candidates = [unique_email] \<and>
           resolve self svc candidates s = (s, Inr (user unique_email))"
proof -
  from assms obtain unique_email where "candidates = [unique_email]"
    by (cases candidates) auto
  then show ?thesis
    by (simp add: resolve_def)
qed

theorem single_candidate_returned_witness:
  "length [row 7 False True] = 1 \<and>
   resolve (resolver ''a@example.com'' None) service_down [row 7 False True] no_effects
     = (no_effects, Inr (User 7))"
  using single_candidate_returned
    [of "[row 7 False True]" "resolver ''a@example.com'' None" service_down no_effects]
  by simp

text \<open>
  C6. With at least two candidates of which exactly one is verified, \<open>resolve\<close> returns
  the user of that row and increments only the counter of the first step,
  \<open>by_verification\<close>; the organization, the service and the other flags of the rows are
  arbitrary.
\<close>

theorem unique_verified_wins:
  assumes "2 \<le> length candidates"
    and "filter is_verified candidates = [choice]"
  shows "resolve self svc candidates s =
           (s\<lparr>metrics := metrics s @ [''auth.email_resolution.by_verification'']\<rparr>,
            Inr (user choice))"
proof -
  from assms(2) have "loop_body self svc IsVerified candidates s =
      (metrics_incr ''auth.email_resolution.by_verification'' s, Return (user choice))"
    by (simp add: loop_body_def)
  then have "run_steps self svc get_steps candidates s =
      (metrics_incr ''auth.email_resolution.by_verification'' s, Return (user choice))"
    by (simp add: get_steps_def)
  with assms(1) show ?thesis
    by (simp add: resolve_two_or_more metrics_incr_def)
qed

theorem unique_verified_wins_witness:
  "2 \<le> length [row 1 False True, row 2 True False, row 3 False False] \<and>
   filter is_verified [row 1 False True, row 2 True False, row 3 False False]
     = [row 2 True False] \<and>
   resolve (resolver ''a@example.com'' (Some \<lparr>org_id = 5\<rparr>)) service_down
       [row 1 False True, row 2 True False, row 3 False False] no_effects
     = (\<lparr>metrics = [''auth.email_resolution.by_verification''], service_calls = []\<rparr>,
        Inr (User 2))"
  using unique_verified_wins
    [of "[row 1 False True, row 2 True False, row 3 False False]" "row 2 True False"
        "resolver ''a@example.com'' (Some \<lparr>org_id = 5\<rparr>)" service_down no_effects]
  by simp

text \<open>
  C1. A step whose \<open>apply\<close> leaves no candidate is a no-op: the iteration continues
  with the candidates it started from, and the loop goes on with the remaining steps on
  that same collection. Consequently one iteration, and any run of steps, started on a
  non-empty collection continues with a non-empty one.
\<close>

theorem empty_step_is_noop:
  "(apply_step self svc step candidates s = (s1, Inr []) \<longrightarrow>
      loop_body self svc step candidates s = (s1, Continue candidates) \<and>
      run_steps self svc (step # steps) candidates s = run_steps self svc steps candidates s1) \<and>
   (candidates \<noteq> [] \<and> loop_body self svc step candidates s = (s2, Continue current)
      \<longrightarrow> current \<noteq> []) \<and>
   (candidates \<noteq> [] \<and> run_steps self svc steps candidates s = (s3, Continue remaining)
      \<longrightarrow> remaining \<noteq> [])"
proof (intro conjI impI)
  assume a: "apply_step self svc step candidates s = (s1, Inr [])"
  then show b: "loop_body self svc step candidates s = (s1, Continue candidates)"
    by (simp add: loop_body_def)
  then show "run_steps self svc (step # steps) candidates s = run_steps self svc steps candidates s1"
    by simp
next
  assume "candidates \<noteq> [] \<and> loop_body self svc step candidates s = (s2, Continue current)"
  then have ne: "candidates \<noteq> []"
    and b: "loop_body self svc step candidates s = (s2, Continue current)"
    by simp_all
  from loop_body_Continue(3) [OF b] ne show "current \<noteq> []"
    by auto
next
  assume "candidates \<noteq> [] \<and> run_steps self svc steps candidates s = (s3, Continue remaining)"
  then have ne: "candidates \<noteq> []"
    and r: "run_steps self svc steps candidates s = (s3, Continue remaining)"
    by simp_all
  from run_steps_Continue [OF r] ne show "remaining \<noteq> []"
    by auto
qed

theorem empty_step_is_noop_witness:
  "apply_step (resolver ''a@example.com'' None) no_members IsVerified
       [row 1 False False, row 2 False True, row 3 False True] no_effects
     = (no_effects, Inr []) \<and>
   loop_body (resolver ''a@example.com'' None) no_members IsVerified
       [row 1 False False, row 2 False True, row 3 False True] no_effects
     = (no_effects, Continue [row 1 False False, row 2 False True, row 3 False True]) \<and>
   run_steps (resolver ''a@example.com'' None) no_members [IsVerified, HasOrgMembership]
       [row 1 False False, row 2 False True, row 3 False True] no_effects
     = run_steps (resolver ''a@example.com'' None) no_members [HasOrgMembership]
         [row 1 False False, row 2 False True, row 3 False True] no_effects \<and>
   [row 1 False False, row 2 False True, row 3 False True] \<noteq> [] \<and>
   run_steps (resolver ''a@example.com'' None) no_members [HasOrgMembership]
       [row 1 False False, row 2 False True, row 3 False True] no_effects
     = (no_effects, Continue [row 1 False False, row 2 False True, row 3 False True])"
  using empty_step_is_noop
    [of "resolver ''a@example.com'' None" no_members IsVerified
        "[row 1 False False, row 2 False True, row 3 False True]" no_effects no_effects
        "[HasOrgMembership]" no_effects "[row 1 False False, row 2 False True, row 3 False True]"
        no_effects "[row 1 False False, row 2 False True, row 3 False True]"]
  by (simp add: loop_body_def)

text \<open>
  C2. With at least two candidates, when the loop over the three steps ends without a
  single survivor, \<open>resolve\<close> reports \<open>AmbiguousUserFromEmail\<close> with the email and
  the users of exactly the remaining rows, in their order; at least two rows remain, they
  are a subsequence of the input, and \<open>no_resolution\<close> is the one counter incremented.
\<close>

theorem ambiguous_after_all_steps:
  assumes "2 \<le> length candidates"
    and "run_steps self svc get_steps candidates s = (s1, Continue remaining)"
  shows "resolve self svc candidates s =
           (s1\<lparr>metrics := metrics s @ [''auth.email_resolution.no_resolution'']\<rparr>,
            Inl (AmbiguousUserFromEmail (email self) (map user remaining))) \<and>
         2 \<le> length remaining \<and> subseq remaining candidates \<and>
         emitted s (fst (resolve self svc candidates s))
           = [''auth.email_resolution.no_resolution'']"
proof -
  note h = run_steps_Continue [OF assms(2)]
  from h have m: "metrics s1 = metrics s" by simp
  from assms have r: "resolve self svc candidates s =
      (s1\<lparr>metrics := metrics s @ [''auth.email_resolution.no_resolution'']\<rparr>,
       Inl (AmbiguousUserFromEmail (email self) (map user remaining)))"
    by (simp add: resolve_two_or_more if_inconclusive_def metrics_incr_def m)
  from h assms(1) have "2 \<le> length remaining" by auto
  with r h show ?thesis
    by (simp add: emitted_def)
qed

theorem ambiguous_after_all_steps_witness:
  "2 \<le> length [row 1 True False, row 2 False False, row 3 True False] \<and>
   run_steps (resolver ''a@example.com'' None) no_members get_steps
       [row 1 True False, row 2 False False, row 3 True False] no_effects
     = (no_effects, Continue [row 1 True False, row 3 True False]) \<and>
   resolve (resolver ''a@example.com'' None) no_members
       [row 1 True False, row 2 False False, row 3 True False] no_effects
     = (\<lparr>metrics = [''auth.email_resolution.no_resolution''], service_calls = []\<rparr>,
        Inl (AmbiguousUserFromEmail ''a@example.com'' [User 1, User 3]))"
proof -
  have run: "run_steps (resolver ''a@example.com'' None) no_members get_steps
       [row 1 True False, row 2 False False, row 3 True False] no_effects
     = (no_effects, Continue [row 1 True False, row 3 True False])"
    by (simp add: get_steps_def loop_body_def)
  have len: "2 \<le> length [row 1 True False, row 2 False False, row 3 True False]"
    by simp
  from ambiguous_after_all_steps [OF len run] run show ?thesis
    by simp
qed

subsection \<open>The organization service\<close>

lemma apply_step_no_organization:
  "organization self = None \<Longrightarrow> apply_step self svc step cs s = (s', r) \<Longrightarrow>
     service_calls s' = service_calls s"
  by (cases step) auto

lemma if_conclusive_service_calls [simp]:
  "service_calls (if_conclusive step xs x s) = service_calls s"
  by (cases step) simp_all

lemma loop_body_no_organization:
  assumes "organization self = None"
  shows "service_calls (fst (loop_body self svc step cs s)) = service_calls s"
proof -
  obtain s1 r where a: "apply_step self svc step cs s = (s1, r)"
    by (cases "apply_step self svc step cs s")
  from apply_step_no_organization [OF assms a] a show ?thesis
    by (cases r) (auto simp: loop_body_def split: list.splits)
qed

lemma run_steps_no_organization:
  assumes "organization self = None"
  shows "service_calls (fst (run_steps self svc steps cs s)) = service_calls s"
proof (induction steps arbitrary: cs s)
  case Nil
  then show ?case by simp
next
  case (Cons step steps)
  obtain s1 r where b: "loop_body self svc step cs s = (s1, r)"
    by (cases "loop_body self svc step cs s")
  from loop_body_no_organization [OF assms, of svc step cs s] b
  have "service_calls s1 = service_calls s" by simp
  with b Cons.IH show ?case
    by (cases r) simp_all
qed

lemma resolve_no_organization:
  assumes "organization self = None"
  shows "service_calls (fst (resolve self svc cs s)) = service_calls s"
proof -
  obtain s1 r where b: "run_steps self svc get_steps cs s = (s1, r)"
    by (cases "run_steps self svc get_steps cs s")
  from run_steps_no_organization [OF assms, of svc get_steps cs s] b
  have "service_calls s1 = service_calls s" by simp
  with b show ?thesis
    by (cases r) (auto simp: resolve_def if_inconclusive_def split: list.splits)
qed

text \<open>
  C7. Without an organization, \<open>HasOrgMembership.apply\<close> returns the empty tuple and
  leaves the effects as they were, so the organization service is not called; the
  iteration continues with the same candidates, the loop goes on to \<open>IsPrimary\<close> with
  them, and the whole of \<open>resolve\<close> makes no service call.
\<close>

theorem no_organization_skips_membership:
  assumes "organization self = None"
  shows "apply_step self svc HasOrgMembership candidates s = (s, Inr []) \<and>
         loop_body self svc HasOrgMembership candidates s = (s, Continue candidates) \<and>
         run_steps self svc [HasOrgMembership, IsPrimary] candidates s
           = run_steps self svc [IsPrimary] candidates s \<and>
         service_calls (fst (resolve self svc candidates s)) = service_calls s"
  using assms resolve_no_organization [OF assms, of svc candidates s]
  by (simp add: loop_body_def)

theorem no_organization_skips_membership_witness:
  "organization (resolver ''a@example.com'' None) = None \<and>
   apply_step (resolver ''a@example.com'' None) member_two HasOrgMembership
       [row 1 True False, row 2 True True] no_effects
     = (no_effects, Inr []) \<and>
   loop_body (resolver ''a@example.com'' None) member_two HasOrgMembership
       [row 1 True False, row 2 True True] no_effects
     = (no_effects, Continue [row 1 True False, row 2 True True]) \<and>
   resolve (resolver ''a@example.com'' None) member_two
       [row 1 True False, row 2 True True] no_effects
     = (\<lparr>metrics = [''auth.email_resolution.by_primary_email''], service_calls = []\<rparr>,
        Inr (User 2))"
  using no_organization_skips_membership
    [of "resolver ''a@example.com'' None" member_two
        "[row 1 True False, row 2 True True]" no_effects]
  by (simp add: resolve_def get_steps_def loop_body_def)

text \<open>
  C8. When the organization service raises in the \<open>HasOrgMembership\<close> step, the loop
  stops there with that exception, whatever steps would follow: the one service call is
  recorded and no counter is incremented. A \<open>resolve\<close> whose first step did not conclude
  surfaces the exception to its caller, with neither a user nor an ambiguity report.
\<close>

theorem service_failure_aborts:
  assumes "organization self = Some org"
    and "svc (org_id org) (map user_id current) = Inl msg"
  shows "run_steps self svc (HasOrgMembership # steps) current s
           = (s\<lparr>service_calls := service_calls s @ [(org_id org, map user_id current)]\<rparr>,
              Raise (ServiceException msg)) \<and>
         (2 \<le> length candidates \<and>
          loop_body self svc IsVerified candidates s0 = (s, Continue current) \<longrightarrow>
            resolve self svc candidates s0
              = (s\<lparr>service_calls := service_calls s @ [(org_id org, map user_id current)]\<rparr>,
                 Inl (ServiceException msg)))"
proof (intro conjI impI)
  from assms have "loop_body self svc HasOrgMembership current s
           = (s\<lparr>service_calls := service_calls s @ [(org_id org, map user_id current)]\<rparr>,
              Raise (ServiceException msg))"
    by (simp add: loop_body_def get_member_summaries_by_ids_def)
  then show run: "run_steps self svc (HasOrgMembership # steps) current s
           = (s\<lparr>service_calls := service_calls s @ [(org_id org, map user_id current)]\<rparr>,
              Raise (ServiceException msg))" for steps
    by simp
  assume "2 \<le> length candidates \<and>
          loop_body self svc IsVerified candidates s0 = (s, Continue current)"
  then have len: "2 \<le> length candidates"
    and first: "loop_body self svc IsVerified candidates s0 = (s, Continue current)"
    by simp_all
  from first run [of "[IsPrimary]"]
  have "run_steps self svc get_steps candidates s0
           = (s\<lparr>service_calls := service_calls s @ [(org_id org, map user_id current)]\<rparr>,
              Raise (ServiceException msg))"
    by (simp add: get_steps_def)
  with len show "resolve self svc candidates s0
              = (s\<lparr>service_calls := service_calls s @ [(org_id org, map user_id current)]\<rparr>,
                 Inl (ServiceException msg))"
    by (simp add: resolve_two_or_more)
qed

theorem service_failure_aborts_witness:
  "organization (resolver ''a@example.com'' (Some \<lparr>org_id = 5\<rparr>)) = Some \<lparr>org_id = 5\<rparr> \<and>
   service_down (org_id \<lparr>org_id = 5\<rparr>) (map user_id [row 1 False True, row 2 False False])
     = Inl ''timeout'' \<and>
   2 \<le> length [row 1 False True, row 2 False False] \<and>
   loop_body (resolver ''a@example.com'' (Some \<lparr>org_id = 5\<rparr>)) service_down IsVerified
       [row 1 False True, row 2 False False] no_effects
     = (no_effects, Continue [row 1 False True, row 2 False False]) \<and>
   resolve (resolver ''a@example.com'' (Some \<lparr>org_id = 5\<rparr>)) service_down
       [row 1 False True, row 2 False False] no_effects
     = (\<lparr>metrics = [], service_calls = [(5, [1, 2])]\<rparr>, Inl (ServiceException ''timeout''))"
proof -
  have org: "organization (resolver ''a@example.com'' (Some \<lparr>org_id = 5\<rparr>)) = Some \<lparr>org_id = 5\<rparr>"
    by simp
  have down: "service_down (org_id \<lparr>org_id = 5\<rparr>)
      (map user_id [row 1 False True, row 2 False False]) = Inl ''timeout''"
    by (simp add: service_down_def)
  have first: "loop_body (resolver ''a@example.com'' (Some \<lparr>org_id = 5\<rparr>)) service_down IsVerified
       [row 1 False True, row 2 False False] no_effects
     = (no_effects, Continue [row 1 False True, row 2 False False])"
    by (simp add: loop_body_def)
  from service_failure_aborts
      [where self = "resolver ''a@example.com'' (Some \<lparr>org_id = 5\<rparr>)"
         and org = "\<lparr>org_id = 5\<rparr>" and svc = service_down and msg = "''timeout''"
         and current = "[row 1 False True, row 2 False False]"
         and candidates = "[row 1 False True, row 2 False False]"
         and s = no_effects and ?s0.0 = no_effects and steps = "[IsPrimary]", OF org down]
    org down first
  show ?thesis
    by simp
qed

subsection \<open>Narrowing and counters\<close>

lemma resolve_Inr_member:
  assumes "resolve self svc candidates s = (s', Inr u)"
  shows "\<exists>choice \<in> set candidates. u = user choice"
proof (cases "2 \<le> length candidates")
  case True
  obtain s1 r where b: "run_steps self svc get_steps candidates s = (s1, r)"
    by (cases "run_steps self svc get_steps candidates s")
  with assms True have "r = Return u"
    by (cases r) (auto simp: resolve_two_or_more)
  with b run_steps_Return [of self svc get_steps candidates s s1 u] show ?thesis
    by auto
next
  case False
  then have "candidates = [] \<or> (\<exists>x. candidates = [x])"
    by (cases candidates; cases "tl candidates") auto
  with assms show ?thesis
    by (auto simp: resolve_def)
qed

text \<open>
  C9. The \<open>apply\<close> of every step returns a subsequence of its input: rows of the input,
  in the input's order, none added. So a user that \<open>resolve\<close> returns is the user of a
  row of the original candidates.
\<close>

theorem steps_only_narrow:
  "(apply_step self svc step candidates s = (s1, Inr narrowed) \<longrightarrow>
      subseq narrowed candidates \<and> set narrowed \<subseteq> set candidates) \<and>
   (resolve self svc candidates s = (s2, Inr u) \<longrightarrow>
      (\<exists>choice \<in> set candidates. u = user choice))"
proof (intro conjI impI)
  assume "apply_step self svc step candidates s = (s1, Inr narrowed)"
  then show sub: "subseq narrowed candidates"
    by (rule apply_step_subseq)
  then show "set narrowed \<subseteq> set candidates"
    by (auto dest: list_emb_set)
next
  assume "resolve self svc candidates s = (s2, Inr u)"
  then show "\<exists>choice \<in> set candidates. u = user choice"
    by (rule resolve_Inr_member)
qed

theorem steps_only_narrow_witness:
  "apply_step (resolver ''a@example.com'' (Some \<lparr>org_id = 5\<rparr>)) member_two HasOrgMembership
       [row 1 False False, row 2 False False, row 3 False False] no_effects
     = (\<lparr>metrics = [], service_calls = [(5, [1, 2, 3])]\<rparr>, Inr [row 2 False False]) \<and>
   subseq [row 2 False False] [row 1 False False, row 2 False False, row 3 False False] \<and>
   resolve (resolver ''a@example.com'' (Some \<lparr>org_id = 5\<rparr>)) member_two
       [row 1 False False, row 2 False False, row 3 False False] no_effects
     = (\<lparr>metrics = [''auth.email_resolution.by_org_membership''],
          service_calls = [(5, [1, 2, 3])]\<rparr>, Inr (User 2)) \<and>
   User 2 \<in> user ` set [row 1 False False, row 2 False False, row 3 False False]"
  using steps_only_narrow
    [of "resolver ''a@example.com'' (Some \<lparr>org_id = 5\<rparr>)" member_two HasOrgMembership
        "[row 1 False False, row 2 False False, row 3 False False]" no_effects
        "\<lparr>metrics = [], service_calls = [(5, [1, 2, 3])]\<rparr>" "[row 2 False False]"
        "\<lparr>metrics = [''auth.email_resolution.by_org_membership''],
          service_calls = [(5, [1, 2, 3])]\<rparr>" "User 2"]
  by (simp add: resolve_def get_steps_def loop_body_def get_member_summaries_by_ids_def
      member_two_def)






subsection \<open>Returned and raised outcomes\<close>

lemma resolve_email_to_user_nobody:
  "objects_filter e = [] \<Longrightarrow>
     resolve_email_to_user objects_filter svc e org s = (s, Inr None)"
  by (simp add: resolve_email_to_user_def)

lemma resolve_Continue:
  assumes "2 \<le> length candidates"
    and "run_steps self svc get_steps candidates s = (s1, Continue remaining)"
  shows "resolve self svc candidates s =
           (s1\<lparr>metrics := metrics s @ [''auth.email_resolution.no_resolution'']\<rparr>,
            Inl (AmbiguousUserFromEmail (email self) (map user remaining)))"
proof -
  from run_steps_Continue [OF assms(2)] have "metrics s1 = metrics s"
    by simp
  with assms show ?thesis
    by (simp add: resolve_two_or_more if_inconclusive_def metrics_incr_def)
qed

text \<open>
  C3, as the claim states it, fails: with two unverified, non-primary rows and no
  organization, \<open>resolve_email_to_user\<close> does not return; it raises
  \<open>AmbiguousUserFromEmail\<close>.
\<close>

theorem ambiguity_is_raised:
  "resolve_email_to_user two_unverified no_members ''a@example.com'' None no_effects
     = (\<lparr>metrics = [''auth.email_resolution.no_resolution''], service_calls = []\<rparr>,
        Inl (AmbiguousUserFromEmail ''a@example.com'' [User 1, User 2]))"
  by (simp add: resolve_email_to_user_def two_unverified_def resolve_def get_steps_def
      loop_body_def if_inconclusive_def metrics_incr_def)

text \<open>
  C3, amended. Of the two outcomes only "no match" is an ordinary return value: when the
  query finds no row, \<open>resolve_email_to_user\<close> returns \<open>None\<close> and leaves the effects
  untouched. Ambiguity is raised: when at least two rows are found and the loop over the
  steps ends without a single survivor, \<open>resolve_email_to_user\<close> raises
  \<open>AmbiguousUserFromEmail\<close> with the email and the users of the remaining rows.
\<close>

theorem no_match_returned_ambiguity_raised:
  "(objects_filter e = [] \<longrightarrow>
      resolve_email_to_user objects_filter svc e org s = (s, Inr None)) \<and>
   (2 \<le> length (objects_filter e) \<and>
    run_steps (resolver e org) svc get_steps (objects_filter e) s = (s1, Continue remaining)
      \<longrightarrow>
      resolve_email_to_user objects_filter svc e org s
        = (s1\<lparr>metrics := metrics s @ [''auth.email_resolution.no_resolution'']\<rparr>,
           Inl (AmbiguousUserFromEmail e (map user remaining))))"
proof (intro conjI impI)
  assume "objects_filter e = []"
  then show "resolve_email_to_user objects_filter svc e org s = (s, Inr None)"
    by (rule resolve_email_to_user_nobody)
next
  assume "2 \<le> length (objects_filter e) \<and>
    run_steps (resolver e org) svc get_steps (objects_filter e) s = (s1, Continue remaining)"
  then have len: "2 \<le> length (objects_filter e)"
    and run: "run_steps (resolver e org) svc get_steps (objects_filter e) s
                = (s1, Continue remaining)"
    by simp_all
  from len have "objects_filter e \<noteq> []"
    by auto
  with resolve_Continue [OF len run]
  show "resolve_email_to_user objects_filter svc e org s
        = (s1\<lparr>metrics := metrics s @ [''auth.email_resolution.no_resolution'']\<rparr>,
           Inl (AmbiguousUserFromEmail e (map user remaining)))"
    by (simp add: resolve_email_to_user_def)
qed

theorem no_match_returned_ambiguity_raised_witness:
  "nobody ''b@example.com'' = [] \<and>
   resolve_email_to_user nobody member_two ''b@example.com'' (Some \<lparr>org_id = 5\<rparr>) no_effects
     = (no_effects, Inr None) \<and>
   2 \<le> length (two_unverified ''b@example.com'') \<and>
   run_steps (resolver ''b@example.com'' (Some \<lparr>org_id = 5\<rparr>)) no_members get_steps
       (two_unverified ''b@example.com'') no_effects
     = (\<lparr>metrics = [], service_calls = [(5, [1, 2])]\<rparr>,
        Continue [row 1 False False, row 2 False False]) \<and>
   resolve_email_to_user two_unverified no_members ''b@example.com'' (Some \<lparr>org_id = 5\<rparr>)
       no_effects
     = (\<lparr>metrics = [''auth.email_resolution.no_resolution''], service_calls = [(5, [1, 2])]\<rparr>,
        Inl (AmbiguousUserFromEmail ''b@example.com'' [User 1, User 2]))"
proof -
  have none: "nobody ''b@example.com'' = []"
    by (simp add: nobody_def)
  have len: "2 \<le> length (two_unverified ''b@example.com'')"
    by (simp add: two_unverified_def)
  have run: "run_steps (resolver ''b@example.com'' (Some \<lparr>org_id = 5\<rparr>)) no_members get_steps
       (two_unverified ''b@example.com'') no_effects
     = (\<lparr>metrics = [], service_calls = [(5, [1, 2])]\<rparr>,
        Continue [row 1 False False, row 2 False False])"
    by (simp add: two_unverified_def get_steps_def loop_body_def
        get_member_summaries_by_ids_def no_members_def)
  from no_match_returned_ambiguity_raised
      [where objects_filter = nobody and e = "''b@example.com''" and svc = member_two
         and org = "Some \<lparr>org_id = 5\<rparr>" and s = no_effects]
    none
  have first: "resolve_email_to_user nobody member_two ''b@example.com''
      (Some \<lparr>org_id = 5\<rparr>) no_effects = (no_effects, Inr None)"
    by simp
  from no_match_returned_ambiguity_raised
      [where objects_filter = two_unverified and e = "''b@example.com''" and svc = no_members
         and org = "Some \<lparr>org_id = 5\<rparr>" and s = no_effects
         and ?s1.0 = "\<lparr>metrics = [], service_calls = [(5, [1, 2])]\<rparr>"
         and remaining = "[row 1 False False, row 2 False False]"]
    len run
  have second: "resolve_email_to_user two_unverified no_members ''b@example.com''
      (Some \<lparr>org_id = 5\<rparr>) no_effects
     = (\<lparr>metrics = [''auth.email_resolution.no_resolution''], service_calls = [(5, [1, 2])]\<rparr>,
        Inl (AmbiguousUserFromEmail ''b@example.com'' [User 1, User 2]))"
    by simp
  from none first len run second show ?thesis
    by simp
qed

text \<open>
  The guard at the head of \<open>resolve\<close>. Its only caller, \<open>resolve_email_to_user\<close>,
  returns \<open>None\<close> before it would pass an empty collection.
\<close>

lemma resolve_empty_ValueError:
  "resolve self svc [] s = (s, Inl ValueError)"
  by (simp add: resolve_def)

lemma resolve_nonempty_not_ValueError:
  assumes "candidates \<noteq> []"
  shows "snd (resolve self svc candidates s) \<noteq> Inl ValueError"
proof (cases "2 \<le> length candidates")
  case True
  obtain s1 r where b: "run_steps self svc get_steps candidates s = (s1, r)"
    by (cases "run_steps self svc get_steps candidates s")
  show ?thesis
  proof (cases r)
    case (Return u)
    with True b show ?thesis
      by (simp add: resolve_two_or_more)
  next
    case (Raise exn)
    with run_steps_Raise [OF b [unfolded Raise]] True b show ?thesis
      by (auto simp: resolve_two_or_more)
  next
    case (Continue remaining)
    with True b show ?thesis
      by (simp add: resolve_two_or_more)
  qed
next
  case False
  with assms obtain x where "candidates = [x]"
    by (cases candidates; cases "tl candidates") auto
  then show ?thesis
    by (simp add: resolve_def)
qed

text \<open>
  C4. When the query finds no row for the email, the resolution yields no user without
  raising: \<open>resolve_email_to_user\<close> returns \<open>None\<close> and leaves the effects untouched
  (no service call, no counter). This is an outcome of its own and not an error: the
  \<open>ValueError\<close> with which \<open>resolve\<close> guards against an empty collection never leaves
  \<open>resolve_email_to_user\<close>, whatever the query finds.
\<close>

theorem no_candidates_is_none:
  "(objects_filter e = [] \<longrightarrow>
      resolve_email_to_user objects_filter svc e org s = (s, Inr None)) \<and>
   snd (resolve_email_to_user objects_filter svc e org s) \<noteq> Inl ValueError"
proof (intro conjI impI)
  assume "objects_filter e = []"
  then show "resolve_email_to_user objects_filter svc e org s = (s, Inr None)"
    by (simp add: resolve_email_to_user_def)
next
  show "snd (resolve_email_to_user objects_filter svc e org s) \<noteq> Inl ValueError"
  proof (cases "objects_filter e = []")
    case True
    then show ?thesis
      by (simp add: resolve_email_to_user_def)
  next
    case False
    obtain s1 r where b: "resolve (resolver e org) svc (objects_filter e) s = (s1, r)"
      by (cases "resolve (resolver e org) svc (objects_filter e) s")
    with resolve_nonempty_not_ValueError [OF False, of "resolver e org" svc s]
    have "r \<noteq> Inl ValueError"
      by simp
    with False b show ?thesis
      by (cases r) (auto simp: resolve_email_to_user_def)
  qed
qed

theorem no_candidates_is_none_witness:
  "nobody ''c@example.com'' = [] \<and>
   resolve_email_to_user nobody service_down ''c@example.com'' None no_effects
     = (no_effects, Inr None)"
  using no_candidates_is_none
    [of nobody "''c@example.com''" service_down None no_effects]
  by (simp add: nobody_def)

end
